theory Spec2Isabelle
  imports Main
begin

section \<open>The in-memory cache of in-memory-cache.go\<close>

text \<open>
  The Go type \<^verbatim>\<open>InMemoryCache[T]\<close> holds a time-to-live, a ticker, a \<^verbatim>\<open>done\<close>
  channel, a read/write mutex, the flag \<^verbatim>\<open>isClosed\<close>, a map from keys to entry
  pointers and a slice of entry pointers. Every method body runs under the mutex, so
  the methods are modelled as atomic steps on a record of the remaining fields.

  Time is read from \<^verbatim>\<open>time.Now()\<close>; each call of a method receives the clock
  reading as an argument \<open>now\<close>, an integer number of nanoseconds. A
  \<^verbatim>\<open>time.Duration\<close> is an integer number of nanoseconds too, and
  \<^verbatim>\<open>Time.Add\<close> is addition (the range of \<^verbatim>\<open>time.Time\<close> is not modelled).

  An entry is never written after it is built, so the pointers \<^verbatim>\<open>*entry[T]\<close> of
  the map and of the slice are modelled by the entries themselves.
\<close>

type_synonym time = int

record 'v entry =
  Key :: string
  Value :: 'v
  Expiration :: time

text \<open>\<^verbatim>\<open>e.Expiration.Before(time.Now())\<close>: strictly earlier than the clock reading.\<close>

definition IsExpired :: "'v entry \<Rightarrow> time \<Rightarrow> bool" where
  "IsExpired e now = (Expiration e < now)"

text \<open>
  The ticker is represented by whether it has been stopped, the channel \<^verbatim>\<open>done\<close>
  by whether it has been closed.
\<close>

record 'v cache =
  timeToLive :: int
  tickerStopped :: bool
  doneClosed :: bool
  isClosed :: bool
  hashmap :: "string \<rightharpoonup> 'v entry"
  queue :: "'v entry list"

text \<open>
  A call either returns or panics with a message. A method leaves the cache it was
  called on behind in both cases (the deferred unlock runs, and a recovered panic, as
  in the repository's test of a closed cache, leaves the object in use), so a method
  is a function to the pair of the cache afterwards and the outcome.
\<close>

datatype 'a outcome = Panic string | Return 'a

datatype error = CacheMiss

text \<open>
  \<^verbatim>\<open>time.NewTicker\<close> panics on a non-positive interval; otherwise the
  constructor returns a cache with an empty map and a nil slice.
\<close>

definition NewInMemoryCache :: "int \<Rightarrow> int \<Rightarrow> 'v cache outcome" where
  "NewInMemoryCache ttl autoCleanInterval =
     (if autoCleanInterval \<le> 0 then Panic ''non-positive interval for NewTicker''
      else Return \<lparr>timeToLive = ttl, tickerStopped = False, doneClosed = False,
                   isClosed = False, hashmap = Map.empty, queue = []\<rparr>)"

definition mustBeNotClosed :: "'v cache \<Rightarrow> unit outcome" where
  "mustBeNotClosed c = (if isClosed c then Panic ''cache is closed'' else Return ())"

text \<open>
  The loop of \<^verbatim>\<open>Set\<close> over the queue: the first entry with the key is cut out
  and the loop breaks.
\<close>

fun removeKey :: "string \<Rightarrow> 'v entry list \<Rightarrow> 'v entry list" where
  "removeKey key [] = []"
| "removeKey key (e # es) = (if Key e = key then es else e # removeKey key es)"

definition Set :: "'v cache \<Rightarrow> time \<Rightarrow> string \<Rightarrow> 'v \<Rightarrow> 'v cache \<times> unit outcome" where
  "Set c now key v =
     (case mustBeNotClosed c of
        Panic msg \<Rightarrow> (c, Panic msg)
      | Return _ \<Rightarrow>
          (let q = (if hashmap c key \<noteq> None then removeKey key (queue c) else queue c);
               e = \<lparr>Key = key, Value = v, Expiration = now + timeToLive c\<rparr>
           in (c\<lparr>hashmap := (hashmap c)(key \<mapsto> e), queue := q @ [e]\<rparr>, Return ())))"

text \<open>
  \<^verbatim>\<open>Get\<close> returns a value and an error; \<open>zero\<close> stands for the zero value of the
  element type (\<^verbatim>\<open>var v T\<close>).
\<close>

definition Get ::
  "'v cache \<Rightarrow> time \<Rightarrow> 'v \<Rightarrow> string \<Rightarrow> 'v cache \<times> ('v \<times> error option) outcome" where
  "Get c now zero key =
     (case mustBeNotClosed c of
        Panic msg \<Rightarrow> (c, Panic msg)
      | Return _ \<Rightarrow>
          (case hashmap c key of
             None \<Rightarrow> (c, Return (zero, Some CacheMiss))
           | Some e \<Rightarrow>
               if IsExpired e now then (c, Return (zero, Some CacheMiss))
               else (c, Return (Value e, None))))"

definition Close :: "'v cache \<Rightarrow> 'v cache \<times> unit outcome" where
  "Close c =
     (case mustBeNotClosed c of
        Panic msg \<Rightarrow> (c, Panic msg)
      | Return _ \<Rightarrow>
          (c\<lparr>doneClosed := True, tickerStopped := True, isClosed := True\<rparr>, Return ()))"

text \<open>
  The loop of \<^verbatim>\<open>deleteExpiredEntries\<close>: while the queue is not empty and its head
  is expired, the head is sliced off. One clock reading serves the whole sweep.
\<close>

fun trimExpired :: "time \<Rightarrow> 'v entry list \<Rightarrow> 'v entry list" where
  "trimExpired now [] = []"
| "trimExpired now (e # es) = (if IsExpired e now then trimExpired now es else e # es)"

definition deleteExpiredEntries :: "'v cache \<Rightarrow> time \<Rightarrow> 'v cache" where
  "deleteExpiredEntries c now =
     (if length (queue c) = 0 then c else c\<lparr>queue := trimExpired now (queue c)\<rparr>)"

subsection \<open>Histories\<close>

text \<open>
  What happens to a cache over its life is a list of timed events: the calls of its
  three methods and the ticks served by \<^verbatim>\<open>autoClean\<close>, each of which runs
  \<^verbatim>\<open>deleteExpiredEntries\<close>. A tick is allowed at any point, also after
  \<^verbatim>\<open>Close\<close> (the select of \<^verbatim>\<open>autoClean\<close> may still serve a tick that was
  already sent). A panicking call is recovered by the caller and the history goes on.
\<close>

datatype 'v event = CallSet string 'v | CallGet string | CallClose | Tick

fun step :: "'v \<Rightarrow> 'v cache \<Rightarrow> time \<times> 'v event \<Rightarrow> 'v cache" where
  "step zero c (now, CallSet key v) = fst (Set c now key v)"
| "step zero c (now, CallGet key) = fst (Get c now zero key)"
| "step zero c (now, CallClose) = fst (Close c)"
| "step zero c (now, Tick) = deleteExpiredEntries c now"

fun run :: "'v \<Rightarrow> 'v cache \<Rightarrow> (time \<times> 'v event) list \<Rightarrow> 'v cache" where
  "run zero c [] = c"
| "run zero c (ev # evs) = run zero (step zero c ev) evs"

subsection \<open>The invariants of the data model\<close>

text \<open>
  The index (the map) and the eviction queue (the slice) are in bijection when every
  entry of the queue is the entry the map holds under its key, no two entries of the
  queue have the same key, and the keys of the map are exactly the keys of the queue.
  The first two conditions alone say that the queue is indexed.
\<close>

definition queue_indexed :: "'v cache \<Rightarrow> bool" where
  "queue_indexed c =
     (list_all (\<lambda>e. hashmap c (Key e) = Some e) (queue c) \<and> distinct (map Key (queue c)))"

definition index_queue_bijection :: "'v cache \<Rightarrow> bool" where
  "index_queue_bijection c =
     (list_all (\<lambda>e. hashmap c (Key e) = Some e) (queue c) \<and>
      distinct (map Key (queue c)) \<and>
      dom (hashmap c) = set (map Key (queue c)))"

text \<open>The cache that the constructor builds for a time-to-live.\<close>

abbreviation emptyCache :: "int \<Rightarrow> 'v cache" where
  "emptyCache ttl \<equiv>
     \<lparr>timeToLive = ttl, tickerStopped = False, doneClosed = False,
      isClosed = False, hashmap = Map.empty, queue = []\<rparr>"

text \<open>A call of \<^verbatim>\<open>Get\<close> is a miss when it returns with an error.\<close>

definition is_miss :: "('v \<times> error option) outcome \<Rightarrow> bool" where
  "is_miss r = (case r of Panic msg \<Rightarrow> False | Return (v, err) \<Rightarrow> err \<noteq> None)"

section \<open>Lemmas on the operations\<close>

lemma notin_keys: "k \<notin> set (map Key es) \<Longrightarrow> filter (\<lambda>e. Key e \<noteq> k) es = es"
  by (induction es) auto

lemma removeKey_filter:
  "distinct (map Key q) \<Longrightarrow> removeKey k q = filter (\<lambda>e. Key e \<noteq> k) q"
  by (induction q) (auto simp: notin_keys)

lemma trimExpired_dropWhile: "trimExpired now q = dropWhile (\<lambda>e. IsExpired e now) q"
  by (induction q) auto

lemma Set_open:
  "\<not> isClosed c \<Longrightarrow>
     Set c now k v =
       (c\<lparr>hashmap := (hashmap c)(k \<mapsto> \<lparr>Key = k, Value = v, Expiration = now + timeToLive c\<rparr>),
          queue := (if hashmap c k \<noteq> None then removeKey k (queue c) else queue c)
                   @ [\<lparr>Key = k, Value = v, Expiration = now + timeToLive c\<rparr>]\<rparr>, Return ())"
  by (simp add: Set_def mustBeNotClosed_def Let_def)

lemma Set_closed: "isClosed c \<Longrightarrow> Set c now k v = (c, Panic ''cache is closed'')"
  by (simp add: Set_def mustBeNotClosed_def)

lemma Get_closed: "isClosed c \<Longrightarrow> Get c now z k = (c, Panic ''cache is closed'')"
  by (simp add: Get_def mustBeNotClosed_def)

lemma Close_closed: "isClosed c \<Longrightarrow> Close c = (c, Panic ''cache is closed'')"
  by (simp add: Close_def mustBeNotClosed_def)

lemma fst_Get: "fst (Get c now z k) = c"
  by (simp add: Get_def mustBeNotClosed_def split: option.split)

lemma Set_queue_filter:
  assumes "queue_indexed c" and "\<not> isClosed c"
  shows "queue (fst (Set c now k v)) =
           filter (\<lambda>e. Key e \<noteq> k) (queue c)
           @ [\<lparr>Key = k, Value = v, Expiration = now + timeToLive c\<rparr>]"
proof (cases "hashmap c k")
  case None
  from assms(1) have "\<forall>e\<in>set (queue c). hashmap c (Key e) = Some e"
    by (simp add: queue_indexed_def list_all_iff)
  with None have "\<forall>e\<in>set (queue c). Key e \<noteq> k" by auto
  then have "filter (\<lambda>e. Key e \<noteq> k) (queue c) = queue c" by (simp add: filter_id_conv)
  with None assms(2) show ?thesis by (simp add: Set_open)
next
  case (Some e)
  from assms(1) have "distinct (map Key (queue c))" by (simp add: queue_indexed_def)
  then have "removeKey k (queue c) = filter (\<lambda>e. Key e \<noteq> k) (queue c)"
    by (rule removeKey_filter)
  with Some assms(2) show ?thesis by (simp add: Set_open)
qed

lemma Set_hashmap:
  "\<not> isClosed c \<Longrightarrow> hashmap (fst (Set c now k v)) =
      (hashmap c)(k \<mapsto> \<lparr>Key = k, Value = v, Expiration = now + timeToLive c\<rparr>)"
  by (simp add: Set_open)

lemma queue_indexed_Set:
  assumes "queue_indexed c"
  shows "queue_indexed (fst (Set c now k v))"
proof (cases "isClosed c")
  case True
  with assms show ?thesis by (simp add: Set_closed)
next
  case False
  from assms have a: "\<forall>e\<in>set (queue c). hashmap c (Key e) = Some e"
    and d: "distinct (map Key (queue c))"
    by (simp_all add: queue_indexed_def list_all_iff)
  have q: "queue (fst (Set c now k v)) =
           filter (\<lambda>e. Key e \<noteq> k) (queue c)
           @ [\<lparr>Key = k, Value = v, Expiration = now + timeToLive c\<rparr>]"
    using assms False by (rule Set_queue_filter)
  have h: "hashmap (fst (Set c now k v)) =
      (hashmap c)(k \<mapsto> \<lparr>Key = k, Value = v, Expiration = now + timeToLive c\<rparr>)"
    using False by (rule Set_hashmap)
  from d have "distinct (map Key (filter (\<lambda>e. Key e \<noteq> k) (queue c)))"
    by (simp add: distinct_map_filter)
  with a show ?thesis
    unfolding queue_indexed_def q h by (auto simp: list_all_iff)
qed

lemma bijection_Set:
  assumes "index_queue_bijection c"
  shows "index_queue_bijection (fst (Set c now k v))"
proof (cases "isClosed c")
  case True
  with assms show ?thesis by (simp add: Set_closed)
next
  case False
  from assms have qi: "queue_indexed c" and dm: "dom (hashmap c) = set (map Key (queue c))"
    by (simp_all add: index_queue_bijection_def queue_indexed_def)
  have qi': "queue_indexed (fst (Set c now k v))" using qi by (rule queue_indexed_Set)
  have q: "queue (fst (Set c now k v)) =
           filter (\<lambda>e. Key e \<noteq> k) (queue c)
           @ [\<lparr>Key = k, Value = v, Expiration = now + timeToLive c\<rparr>]"
    using qi False by (rule Set_queue_filter)
  have h: "hashmap (fst (Set c now k v)) =
      (hashmap c)(k \<mapsto> \<lparr>Key = k, Value = v, Expiration = now + timeToLive c\<rparr>)"
    using False by (rule Set_hashmap)
  have "dom (hashmap (fst (Set c now k v))) = set (map Key (queue (fst (Set c now k v))))"
    unfolding q h using dm by auto
  with qi' show ?thesis by (simp add: index_queue_bijection_def queue_indexed_def)
qed

lemma bijection_Get: "index_queue_bijection c \<Longrightarrow> index_queue_bijection (fst (Get c now z k))"
  by (simp add: fst_Get)

lemma bijection_Close: "index_queue_bijection c \<Longrightarrow> index_queue_bijection (fst (Close c))"
  by (simp add: Close_def mustBeNotClosed_def index_queue_bijection_def)

lemma bijection_New: "NewInMemoryCache ttl ivl = Return c \<Longrightarrow> index_queue_bijection c"
  by (auto simp: NewInMemoryCache_def index_queue_bijection_def split: if_splits)

lemma queue_indexed_sweep:
  assumes "queue_indexed c"
  shows "queue_indexed (deleteExpiredEntries c now)"
proof -
  have s: "set (trimExpired now (queue c)) \<subseteq> set (queue c)"
    by (simp add: trimExpired_dropWhile set_dropWhileD subsetI)
  have "distinct (map Key (queue c))" using assms by (simp add: queue_indexed_def)
  then have "distinct (map Key (trimExpired now (queue c)))"
    unfolding trimExpired_dropWhile
    by (metis distinct_append map_append takeWhile_dropWhile_id)
  with s assms show ?thesis
    by (auto simp: queue_indexed_def deleteExpiredEntries_def list_all_iff)
qed

lemma queue_indexed_step: "queue_indexed c \<Longrightarrow> queue_indexed (step z c ev)"
proof (cases ev)
  case (Pair now e)
  assume "queue_indexed c"
  then show ?thesis unfolding Pair
    by (cases e) (simp_all add: queue_indexed_Set fst_Get queue_indexed_sweep
        Close_def mustBeNotClosed_def, simp add: queue_indexed_def)
qed

lemma queue_indexed_run: "queue_indexed c \<Longrightarrow> queue_indexed (run z c evs)"
  by (induction evs arbitrary: c) (simp_all add: queue_indexed_step)

lemma set_removeKey: "set (removeKey k q) \<subseteq> set q"
  by (induction q) auto

lemma sorted_removeKey: "sorted (map f q) \<Longrightarrow> sorted (map f (removeKey k q))"
proof (induction q)
  case Nil
  then show ?case by simp
next
  case (Cons e es)
  have "set (removeKey k es) \<subseteq> set es" by (rule set_removeKey)
  with Cons show ?case by auto
qed

lemma sorted_trimExpired: "sorted (map f q) \<Longrightarrow> sorted (map f (trimExpired now q))"
  by (induction q) auto

lemma set_trimExpired: "set (trimExpired now q) \<subseteq> set q"
  by (induction q) auto

lemma timeToLive_step: "timeToLive (step z c ev) = timeToLive c"
proof (cases ev)
  case (Pair now e)
  show ?thesis unfolding Pair
    by (cases e)
      (simp_all add: Set_def Get_def Close_def mustBeNotClosed_def deleteExpiredEntries_def
        Let_def split: option.split)
qed

lemma timeToLive_run: "timeToLive (run z c evs) = timeToLive c"
  by (induction evs arbitrary: c) (simp_all add: timeToLive_step)

lemma isClosed_step: "isClosed c \<Longrightarrow> isClosed (step z c ev)"
proof (cases ev)
  case (Pair now e)
  assume "isClosed c"
  then show ?thesis unfolding Pair
    by (cases e)
      (simp_all add: Set_closed Get_closed Close_closed deleteExpiredEntries_def)
qed

lemma isClosed_run: "isClosed c \<Longrightarrow> isClosed (run z c evs)"
  by (induction evs arbitrary: c) (simp_all add: isClosed_step)

lemma sorted_step:
  assumes s: "sorted (map Expiration (queue c))"
    and b: "\<forall>e\<in>set (queue c). Expiration e \<le> t + timeToLive c"
    and t: "t \<le> fst ev"
  shows "sorted (map Expiration (queue (step z c ev))) \<and>
         (\<forall>e\<in>set (queue (step z c ev)). Expiration e \<le> fst ev + timeToLive c)"
proof (cases ev)
  case (Pair now e)
  from b t Pair have b': "\<forall>e\<in>set (queue c). Expiration e \<le> now + timeToLive c"
    by fastforce
  show ?thesis
  proof (cases e)
    case (CallSet k v)
    show ?thesis
    proof (cases "isClosed c")
      case True
      with s b' Pair CallSet show ?thesis by (simp add: Set_closed)
    next
      case False
      let ?q = "if hashmap c k \<noteq> None then removeKey k (queue c) else queue c"
      have sq: "sorted (map Expiration ?q)" using s by (simp add: sorted_removeKey)
      have "set ?q \<subseteq> set (queue c)" using set_removeKey [of k "queue c"] by simp
      with b' have bq: "\<forall>e\<in>set ?q. Expiration e \<le> now + timeToLive c" by blast
      have "queue (step z c ev) =
              ?q @ [\<lparr>Key = k, Value = v, Expiration = now + timeToLive c\<rparr>]"
        using False Pair CallSet by (simp add: Set_open)
      moreover have "fst ev = now" using Pair by simp
      ultimately show ?thesis using sq bq by (simp add: sorted_append)
    qed
  next
    case (CallGet k)
    with s b' Pair show ?thesis by (simp add: fst_Get)
  next
    case CallClose
    with s b' Pair show ?thesis by (simp add: Close_def mustBeNotClosed_def)
  next
    case Tick
    have "set (trimExpired now (queue c)) \<subseteq> set (queue c)" by (rule set_trimExpired)
    with b' have "\<forall>e\<in>set (trimExpired now (queue c)). Expiration e \<le> now + timeToLive c"
      by blast
    with s b' Pair Tick show ?thesis
      by (simp add: deleteExpiredEntries_def sorted_trimExpired)
  qed
qed

lemma sorted_run:
  assumes "sorted (map fst evs)"
    and "\<forall>ev\<in>set evs. t \<le> fst ev"
    and "sorted (map Expiration (queue c))"
    and "\<forall>e\<in>set (queue c). Expiration e \<le> t + timeToLive c"
  shows "sorted (map Expiration (queue (run z c evs)))"
  using assms
proof (induction evs arbitrary: c t)
  case Nil
  then show ?case by simp
next
  case (Cons ev evs)
  from Cons.prems(2) have t: "t \<le> fst ev" by simp
  from sorted_step [OF Cons.prems(3) Cons.prems(4) t, of z]
  have s': "sorted (map Expiration (queue (step z c ev)))"
    and b': "\<forall>e\<in>set (queue (step z c ev)). Expiration e \<le> fst ev + timeToLive (step z c ev)"
    by (simp_all add: timeToLive_step)
  from Cons.prems(1) have m: "sorted (map fst evs)" and l: "\<forall>x\<in>set evs. fst ev \<le> fst x"
    by simp_all
  from Cons.IH [OF m l s' b'] show ?case by simp
qed

lemma New_fresh:
  "NewInMemoryCache ttl ivl = Return c \<Longrightarrow>
     c = \<lparr>timeToLive = ttl, tickerStopped = False, doneClosed = False,
          isClosed = False, hashmap = Map.empty, queue = []\<rparr>"
  by (simp add: NewInMemoryCache_def split: if_splits)

lemmas eval_defs = NewInMemoryCache_def Set_def Get_def Close_def mustBeNotClosed_def
  deleteExpiredEntries_def IsExpired_def Let_def is_miss_def

lemma deleteExpiredEntries_hashmap: "hashmap (deleteExpiredEntries c now) = hashmap c"
  by (simp add: deleteExpiredEntries_def)

lemma count_after_Set:
  assumes "queue_indexed c" and "\<not> isClosed c"
  shows "length (filter (\<lambda>e. Key e = k) (queue (fst (Set c now k v)))) = 1"
  using Set_queue_filter [OF assms, of now k v] by simp

lemma Set_keeps_open: "\<not> isClosed c \<Longrightarrow> \<not> isClosed (fst (Set c now k v))"
  by (simp add: Set_open)

lemma Get_after_Set:
  assumes "\<not> isClosed c"
  shows "snd (Get (fst (Set c t k v)) t' zero k) =
           (if t + timeToLive c < t' then Return (zero, Some CacheMiss) else Return (v, None))"
  using assms by (simp add: Set_open Get_def mustBeNotClosed_def IsExpired_def)

lemma timeToLive_Set: "timeToLive (fst (Set c now k v)) = timeToLive c"
  by (simp add: Set_def mustBeNotClosed_def Let_def)

section \<open>The claims\<close>

text \<open>
  Claim C1: when the sweep removes an expired entry from the head of the queue it also
  removes the key from the index, so that after a sweep of a cache whose entries are
  all expired both the queue and the index are empty.

  The code does not do this: \<^verbatim>\<open>deleteExpiredEntries\<close> only reslices the queue.
  With a time-to-live of 1 and a cleaning interval of 1, after
  \<^verbatim>\<open>Set("key", "value")\<close> at time 0 the only entry expires at 1; the tick at time
  10 finds it expired and empties the queue, and the map still holds the entry.
\<close>

theorem sweep_keeps_index_entry:
  "NewInMemoryCache 1 1 = Return (emptyCache 1 :: string cache) \<and>
   queue (run [] (emptyCache 1) [(0, CallSet ''key'' ''value'')]) =
     [\<lparr>Key = ''key'', Value = ''value'', Expiration = 1\<rparr>] \<and>
   IsExpired \<lparr>Key = ''key'', Value = ''value'', Expiration = 1\<rparr> 10 \<and>
   queue (run [] (emptyCache 1) [(0, CallSet ''key'' ''value''), (10, Tick)]) = [] \<and>
   hashmap (run [] (emptyCache 1) [(0, CallSet ''key'' ''value''), (10, Tick)]) ''key'' =
     Some \<lparr>Key = ''key'', Value = ''value'', Expiration = 1\<rparr>"
  by (simp add: eval_defs)

text \<open>
  Claim C2: in every reachable state the index and the queue are in bijection, and
  every operation (Set, Get, Close, the sweep) preserves this.

  The constructor establishes the bijection and \<^verbatim>\<open>Set\<close>, \<^verbatim>\<open>Get\<close> and
  \<^verbatim>\<open>Close\<close> preserve it (lemmas \<open>bijection_New\<close>, \<open>bijection_Set\<close>,
  \<open>bijection_Get\<close>, \<open>bijection_Close\<close>); the sweep does not: in the history of
  claim C1 the bijection holds after the \<^verbatim>\<open>Set\<close> and is lost by the tick.
\<close>

theorem sweep_breaks_bijection:
  "NewInMemoryCache 1 1 = Return (emptyCache 1 :: string cache) \<and>
   index_queue_bijection (run [] (emptyCache 1) [(0, CallSet ''key'' ''value'')]) \<and>
   \<not> index_queue_bijection (run [] (emptyCache 1) [(0, CallSet ''key'' ''value''), (10, Tick)])"
  by (simp add: eval_defs index_queue_bijection_def)

text \<open>
  Claim C3: Get(k) returns a miss exactly when k is absent from the index or the
  expiration of its entry is at or before the current time, and the stored value with
  success otherwise.

  As stated the claim fails at two inputs. An entry set at time 0 with a time-to-live
  of 5 expires at 5, and \<^verbatim>\<open>Get\<close> at time 5 (at, not after, the expiration)
  returns the value: \<^verbatim>\<open>IsExpired\<close> is \<^verbatim>\<open>Before\<close>, a strict comparison. And
  on a closed cache \<^verbatim>\<open>Get\<close> of an absent key panics; it returns no miss.
\<close>

theorem Get_hits_at_expiration_instant:
  "hashmap (fst (Set (emptyCache 5) 0 ''key'' (7::nat))) ''key'' =
     Some \<lparr>Key = ''key'', Value = 7, Expiration = 5\<rparr> \<and>
   Expiration \<lparr>Key = ''key'', Value = 7::nat, Expiration = 5\<rparr> \<le> 5 \<and>
   snd (Get (fst (Set (emptyCache 5) 0 ''key'' (7::nat))) 5 0 ''key'') = Return (7, None) \<and>
   \<not> is_miss (snd (Get (fst (Set (emptyCache 5) 0 ''key'' (7::nat))) 5 0 ''key'')) \<and>
   hashmap (fst (Close (emptyCache 5 :: nat cache))) ''key'' = None \<and>
   snd (Get (fst (Close (emptyCache 5))) 5 (0::nat) ''key'') = Panic ''cache is closed'' \<and>
   \<not> is_miss (snd (Get (fst (Close (emptyCache 5))) 5 (0::nat) ''key''))"
  by (simp add: eval_defs)

text \<open>
  Claim C3, amended: on a cache that is not closed, Get(k) returns a miss exactly when
  k is absent from the index or the expiration of its entry is strictly before the
  current time; otherwise it returns the stored value with success. On a closed cache
  Get panics with "cache is closed" instead of returning, and leaves the cache as it
  was.
\<close>

theorem Get_miss_iff:
  "(isClosed c \<longrightarrow> Get c now zero key = (c, Panic ''cache is closed'')) \<and>
   (\<not> isClosed c \<longrightarrow>
      (is_miss (snd (Get c now zero key)) \<longleftrightarrow>
         (hashmap c key = None \<or> (\<exists>e. hashmap c key = Some e \<and> Expiration e < now))) \<and>
      (\<not> is_miss (snd (Get c now zero key)) \<longrightarrow>
         (\<exists>e. hashmap c key = Some e \<and> snd (Get c now zero key) = Return (Value e, None))))"
proof (cases "isClosed c")
  case True
  then show ?thesis by (simp add: Get_closed)
next
  case False
  then show ?thesis by (auto simp: eval_defs split: option.splits)
qed

text \<open>
  The amended claim C3 at the cache of the counterexample: a hit at the expiration
  instant 5, a miss at time 6, and a miss for a key that was never set; and at that
  cache once closed, where Get panics.
\<close>

theorem Get_miss_iff_witness:
  "\<not> isClosed (fst (Set (emptyCache 5) 0 ''key'' (7::nat))) \<and>
   \<not> is_miss (snd (Get (fst (Set (emptyCache 5) 0 ''key'' (7::nat))) 5 0 ''key'')) \<and>
   snd (Get (fst (Set (emptyCache 5) 0 ''key'' (7::nat))) 5 0 ''key'') = Return (7, None) \<and>
   is_miss (snd (Get (fst (Set (emptyCache 5) 0 ''key'' (7::nat))) 6 0 ''key'')) \<and>
   is_miss (snd (Get (fst (Set (emptyCache 5) 0 ''key'' (7::nat))) 5 0 ''other'')) \<and>
   isClosed (fst (Close (fst (Set (emptyCache 5) 0 ''key'' (7::nat))))) \<and>
   Get (fst (Close (fst (Set (emptyCache 5) 0 ''key'' (7::nat))))) 5 0 ''key'' =
     (fst (Close (fst (Set (emptyCache 5) 0 ''key'' (7::nat)))), Panic ''cache is closed'')"
proof -
  let ?c = "fst (Set (emptyCache 5) 0 ''key'' (7::nat))"
  let ?d = "fst (Close ?c)"
  have op: "\<not> isClosed ?c" by (simp add: eval_defs)
  have cl: "isClosed ?d" by (simp add: eval_defs)
  have h: "hashmap ?c ''key'' = Some \<lparr>Key = ''key'', Value = 7, Expiration = 5\<rparr>"
    by (simp add: eval_defs)
  have h': "hashmap ?c ''other'' = None" by (simp add: eval_defs)
  note hit = Get_miss_iff [where c = ?c and now = 5 and zero = 0 and key = "''key''",
      THEN conjunct2, THEN mp, OF op]
  note late = Get_miss_iff [where c = ?c and now = 6 and zero = 0 and key = "''key''",
      THEN conjunct2, THEN mp, OF op]
  note absent = Get_miss_iff [where c = ?c and now = 5 and zero = 0 and key = "''other''",
      THEN conjunct2, THEN mp, OF op]
  note closed = Get_miss_iff [where c = ?d and now = 5 and zero = 0 and key = "''key''",
      THEN conjunct1, THEN mp, OF cl]
  from hit h have a: "\<not> is_miss (snd (Get ?c 5 0 ''key''))" by simp
  with hit h have b: "snd (Get ?c 5 0 ''key'') = Return (7, None)" by simp
  from late h have c: "is_miss (snd (Get ?c 6 0 ''key''))" by simp
  from absent h' have d: "is_miss (snd (Get ?c 5 0 ''other''))" by simp
  from op a b c d cl closed show ?thesis by blast
qed

text \<open>
  Claim C4: for every sequence of Set calls (repeated keys included) from a fresh
  cache, the queue is in non-decreasing order of expiration at every point between
  operations; a Set on an existing key removes the old entry from its place in the
  queue and appends the new entry, with expiration now + ttl, at the tail.

  The clock readings of the history are non-decreasing (\<open>sorted (map fst evs)\<close>).
  The theorem holds for histories of all four events, and so for the histories of Set
  calls; the points between operations are the prefixes \<open>take n evs\<close>. After any
  history, on a cache that is not closed, the queue after a Set is the queue before
  without the entries of that key, followed by the new entry.
\<close>

theorem queue_sorted_by_expiration:
  assumes new: "NewInMemoryCache ttl ivl = Return c0"
    and mono: "sorted (map fst evs)"
  shows "(\<forall>n \<le> length evs. sorted (map Expiration (queue (run zero c0 (take n evs))))) \<and>
         (\<forall>now key v. \<not> isClosed (run zero c0 evs) \<longrightarrow>
            queue (fst (Set (run zero c0 evs) now key v)) =
              filter (\<lambda>e. Key e \<noteq> key) (queue (run zero c0 evs))
              @ [\<lparr>Key = key, Value = v, Expiration = now + ttl\<rparr>])"
proof -
  from new have c0: "queue c0 = []" "timeToLive c0 = ttl" "hashmap c0 = Map.empty"
    by (auto dest: New_fresh)
  have "sorted (map Expiration (queue (run zero c0 (take n evs))))" for n
  proof -
    from mono have "sorted (map fst (take n evs))"
      unfolding take_map [symmetric] by (rule sorted_wrt_take)
    moreover have "\<exists>t. \<forall>ev\<in>set (take n evs). t \<le> fst ev"
    proof (cases "take n evs")
      case Nil
      show ?thesis unfolding Nil by simp
    next
      case (Cons a as)
      with \<open>sorted (map fst (take n evs))\<close> have "\<forall>ev\<in>set (take n evs). fst a \<le> fst ev"
        by auto
      then show ?thesis by blast
    qed
    then obtain t where "\<forall>ev\<in>set (take n evs). t \<le> fst ev" by blast
    ultimately show ?thesis using c0 by (intro sorted_run [where t = t]) simp_all
  qed
  moreover have "queue_indexed (run zero c0 evs)"
    by (rule queue_indexed_run) (simp add: queue_indexed_def c0)
  then have "\<not> isClosed (run zero c0 evs) \<Longrightarrow>
            queue (fst (Set (run zero c0 evs) now key v)) =
              filter (\<lambda>e. Key e \<noteq> key) (queue (run zero c0 evs))
              @ [\<lparr>Key = key, Value = v, Expiration = now + ttl\<rparr>]" for now key v
    using Set_queue_filter [of "run zero c0 evs" now key v] c0
    by (simp add: timeToLive_run)
  ultimately show ?thesis by blast
qed

text \<open>
  Claim C4 at the history Set a, Set b, Set a at times 1, 2, 3 with a time-to-live of
  5: the queue holds b (expiring at 7) and then a (expiring at 8), and a further Set of
  b at time 4 moves b behind a.
\<close>

theorem queue_sorted_by_expiration_witness:
  "NewInMemoryCache 5 1 = Return (emptyCache 5 :: nat cache) \<and>
   sorted (map fst [(1::time, CallSet ''a'' (1::nat)), (2, CallSet ''b'' 2), (3, CallSet ''a'' 3)]) \<and>
   sorted (map Expiration (queue (run 0 (emptyCache 5)
      (take 3 [(1::time, CallSet ''a'' (1::nat)), (2, CallSet ''b'' 2), (3, CallSet ''a'' 3)])))) \<and>
   map Expiration (queue (run 0 (emptyCache 5)
      [(1::time, CallSet ''a'' (1::nat)), (2, CallSet ''b'' 2), (3, CallSet ''a'' 3)])) = [7, 8] \<and>
   \<not> isClosed (run 0 (emptyCache 5)
      [(1::time, CallSet ''a'' (1::nat)), (2, CallSet ''b'' 2), (3, CallSet ''a'' 3)]) \<and>
   queue (fst (Set (run 0 (emptyCache 5)
      [(1::time, CallSet ''a'' (1::nat)), (2, CallSet ''b'' 2), (3, CallSet ''a'' 3)]) 4 ''b'' 9)) =
     [\<lparr>Key = ''a'', Value = 3, Expiration = 8\<rparr>, \<lparr>Key = ''b'', Value = 9, Expiration = 9\<rparr>]"
proof -
  let ?evs = "[(1::time, CallSet ''a'' (1::nat)), (2, CallSet ''b'' 2), (3, CallSet ''a'' 3)]"
  let ?c = "run 0 (emptyCache 5) ?evs"
  have new: "NewInMemoryCache 5 1 = Return (emptyCache 5 :: nat cache)"
    by (simp add: NewInMemoryCache_def)
  have mono: "sorted (map fst ?evs)" by simp
  have q: "queue ?c = [\<lparr>Key = ''b'', Value = 2, Expiration = 7\<rparr>,
                       \<lparr>Key = ''a'', Value = 3, Expiration = 8\<rparr>]"
    by (simp add: eval_defs)
  have op: "\<not> isClosed ?c" by (simp add: eval_defs)
  note th = queue_sorted_by_expiration [OF new mono, of 0]
  have s3: "sorted (map Expiration (queue (run 0 (emptyCache 5) (take 3 ?evs))))"
    by (rule th [THEN conjunct1, rule_format]) simp
  have e: "map Expiration (queue ?c) = [7, 8]" unfolding q by simp
  from th op have "queue (fst (Set ?c 4 ''b'' 9)) =
      filter (\<lambda>e. Key e \<noteq> ''b'') (queue ?c) @ [\<lparr>Key = ''b'', Value = 9, Expiration = 4 + 5\<rparr>]"
    by blast
  then have l: "queue (fst (Set ?c 4 ''b'' 9)) =
     [\<lparr>Key = ''a'', Value = 3, Expiration = 8\<rparr>, \<lparr>Key = ''b'', Value = 9, Expiration = 9\<rparr>]"
    unfolding q by simp
  from new mono s3 e op l show ?thesis by blast
qed

text \<open>
  Claim C5: after Close has been called, every later call of Set, Get or Close fails
  fatally and leaves the cache as it was.

  \<open>c'\<close> is the cache after a Close that returned; whatever happens next (the history
  \<open>evs\<close>), each of the three methods panics with "cache is closed" and the cache
  after the call is the cache before it.
\<close>

theorem closed_cache_panics:
  assumes "Close c = (c', Return ())"
  shows "Set (run zero c' evs) now key v = (run zero c' evs, Panic ''cache is closed'') \<and>
         Get (run zero c' evs) now zero key = (run zero c' evs, Panic ''cache is closed'') \<and>
         Close (run zero c' evs) = (run zero c' evs, Panic ''cache is closed'')"
proof -
  from assms have "isClosed c'"
    by (auto simp: Close_def mustBeNotClosed_def split: if_splits)
  then have "isClosed (run zero c' evs)" by (rule isClosed_run)
  then show ?thesis by (simp add: Set_closed Get_closed Close_closed)
qed

text \<open>
  Claim C5 at a fresh cache that is closed, read and swept, and then used.
\<close>

theorem closed_cache_panics_witness:
  "Close (emptyCache 5 :: nat cache) = ((emptyCache 5)\<lparr>doneClosed := True, tickerStopped := True, isClosed := True\<rparr>, Return ()) \<and>
   Set (run 0 ((emptyCache 5)\<lparr>doneClosed := True, tickerStopped := True, isClosed := True\<rparr>) [(1, CallGet ''a''), (2, Tick)]) 3 ''a'' (1::nat) =
     (run 0 ((emptyCache 5)\<lparr>doneClosed := True, tickerStopped := True, isClosed := True\<rparr>) [(1, CallGet ''a''), (2, Tick)], Panic ''cache is closed'') \<and>
   Get (run 0 ((emptyCache 5)\<lparr>doneClosed := True, tickerStopped := True, isClosed := True\<rparr>) [(1, CallGet ''a''), (2, Tick)]) 3 (0::nat) ''a'' =
     (run 0 ((emptyCache 5)\<lparr>doneClosed := True, tickerStopped := True, isClosed := True\<rparr>) [(1, CallGet ''a''), (2, Tick)], Panic ''cache is closed'') \<and>
   Close (run (0::nat) ((emptyCache 5)\<lparr>doneClosed := True, tickerStopped := True, isClosed := True\<rparr>) [(1, CallGet ''a''), (2, Tick)]) =
     (run 0 ((emptyCache 5)\<lparr>doneClosed := True, tickerStopped := True, isClosed := True\<rparr>) [(1, CallGet ''a''), (2, Tick)], Panic ''cache is closed'')"
proof -
  have cl: "Close (emptyCache 5 :: nat cache) =
      ((emptyCache 5)\<lparr>doneClosed := True, tickerStopped := True, isClosed := True\<rparr>, Return ())"
    by (simp add: Close_def mustBeNotClosed_def)
  from closed_cache_panics [OF cl, of 0 "[(1, CallGet ''a''), (2, Tick)]" 3 "''a''" 1] cl
  show ?thesis by blast
qed

text \<open>
  Claim C6: Set(k, v1), then Set(k, v2), then Get(k) returns (v2, found) and never v1,
  and after the two Sets the number of entries for k, in the index and in the queue,
  does not exceed one.

  As stated, with no condition on when the Get happens, the claim fails: with a
  time-to-live of 1, after Sets of the key at the clock readings 0 and 1 the new entry
  expires at 2, and a Get at the clock reading 10 returns the zero value with a miss,
  not (v2, found).
\<close>

theorem update_then_late_Get_misses:
  "NewInMemoryCache 1 1 = Return (emptyCache 1 :: nat cache) \<and>
   hashmap (fst (Set (fst (Set (emptyCache 1) 0 ''k'' (1::nat))) 1 ''k'' 2)) ''k'' =
     Some \<lparr>Key = ''k'', Value = 2, Expiration = 2\<rparr> \<and>
   snd (Get (fst (Set (fst (Set (emptyCache 1) 0 ''k'' (1::nat))) 1 ''k'' 2)) 10 0 ''k'') =
     Return (0, Some CacheMiss) \<and>
   snd (Get (fst (Set (fst (Set (emptyCache 1) 0 ''k'' (1::nat))) 1 ''k'' 2)) 10 0 ''k'') \<noteq>
     Return (2, None)"
  by (simp add: eval_defs)

text \<open>
  Claim C6, amended: on a cache that is not closed, Set(k, v1), then Set(k, v2), then
  a Get(k) no later than the time-to-live after the second Set returns (v2, found); a
  later Get returns a miss; in both cases the old value v1 is never served, and after
  the two Sets the number of entries for k, in the index and in the queue, does not
  exceed one.

  The cache \<open>c\<close> is any cache reached from a fresh one that is not closed; the two
  Sets happen at the clock readings \<open>t_first\<close> and \<open>t_second\<close>. A Get that comes
  no later than the time-to-live after the second Set returns \<open>v_new\<close> with no error,
  a later one the zero value with a miss; so at any time the Get returns either
  \<open>v_new\<close> with no error or the zero value with a miss. The index maps the key to the
  new entry (a map holds one entry per key), and after each of the two Sets the queue
  holds exactly one entry with the key.
\<close>

theorem update_overwrites:
  assumes new: "NewInMemoryCache ttl ivl = Return c0"
    and c: "c = run zero c0 evs"
    and op: "\<not> isClosed c"
    and c_first: "c_first = fst (Set c t_first key v_old)"
    and c_second: "c_second = fst (Set c_first t_second key v_new)"
  shows "(t_get \<le> t_second + ttl \<longrightarrow> Get c_second t_get zero key = (c_second, Return (v_new, None))) \<and>
         (t_second + ttl < t_get \<longrightarrow>
            Get c_second t_get zero key = (c_second, Return (zero, Some CacheMiss))) \<and>
         (snd (Get c_second t_get zero key) = Return (v_new, None) \<or>
          snd (Get c_second t_get zero key) = Return (zero, Some CacheMiss)) \<and>
         hashmap c_second key = Some \<lparr>Key = key, Value = v_new, Expiration = t_second + ttl\<rparr> \<and>
         length (filter (\<lambda>e. Key e = key) (queue c_first)) = 1 \<and>
         length (filter (\<lambda>e. Key e = key) (queue c_second)) = 1"
proof -
  from new have "queue_indexed c0" by (auto dest: New_fresh simp: queue_indexed_def)
  then have qi: "queue_indexed c" unfolding c by (rule queue_indexed_run)
  then have qf: "queue_indexed c_first" unfolding c_first by (rule queue_indexed_Set)
  have op1: "\<not> isClosed c_first" unfolding c_first using op by (rule Set_keeps_open)
  from new have "timeToLive c0 = ttl" by (auto dest: New_fresh)
  then have "timeToLive c = ttl" unfolding c by (simp add: timeToLive_run)
  then have ttl1: "timeToLive c_first = ttl" unfolding c_first by (simp add: timeToLive_Set)
  have g: "snd (Get c_second t_get zero key) =
           (if t_second + ttl < t_get then Return (zero, Some CacheMiss) else Return (v_new, None))"
    unfolding c_second using Get_after_Set [OF op1, of t_second key v_new t_get zero] ttl1 by simp
  have f: "fst (Get c_second t_get zero key) = c_second" by (rule fst_Get)
  have a: "t_get \<le> t_second + ttl \<longrightarrow> Get c_second t_get zero key = (c_second, Return (v_new, None))"
    using g f by (auto simp: prod_eq_iff)
  have m: "t_second + ttl < t_get \<longrightarrow>
           Get c_second t_get zero key = (c_second, Return (zero, Some CacheMiss))"
    using g f by (auto simp: prod_eq_iff)
  have b: "snd (Get c_second t_get zero key) = Return (v_new, None) \<or>
          snd (Get c_second t_get zero key) = Return (zero, Some CacheMiss)"
    using g by simp
  have h: "hashmap c_second key = Some \<lparr>Key = key, Value = v_new, Expiration = t_second + ttl\<rparr>"
    unfolding c_second using op1 ttl1 by (simp add: Set_hashmap)
  have n_first: "length (filter (\<lambda>e. Key e = key) (queue c_first)) = 1"
    unfolding c_first using qi op by (rule count_after_Set)
  have n_second: "length (filter (\<lambda>e. Key e = key) (queue c_second)) = 1"
    unfolding c_second using qf op1 by (rule count_after_Set)
  from a m b h n_first n_second show ?thesis by blast
qed

text \<open>
  The amended claim C6 at a cache with a time-to-live of 5 that already holds a key b:
  key a is set to 1 at time 0 and to 2 at time 1, and read at time 2.
\<close>

theorem update_overwrites_witness:
  "NewInMemoryCache 5 1 = Return (emptyCache 5 :: nat cache) \<and>
   \<not> isClosed (run (0::nat) (emptyCache 5) [(0::time, CallSet ''b'' 4)]) \<and>
   (2::time) \<le> 1 + 5 \<and>
   Get (fst (Set (fst (Set (run 0 (emptyCache 5) [(0::time, CallSet ''b'' 4)]) 0 ''a'' 1)) 1 ''a'' 2))
       2 (0::nat) ''a'' =
     (fst (Set (fst (Set (run 0 (emptyCache 5) [(0::time, CallSet ''b'' 4)]) 0 ''a'' 1)) 1 ''a'' 2),
      Return (2, None)) \<and>
   queue (fst (Set (fst (Set (run 0 (emptyCache 5) [(0::time, CallSet ''b'' 4)]) 0 ''a'' 1)) 1 ''a'' (2::nat))) =
     [\<lparr>Key = ''b'', Value = 4, Expiration = 5\<rparr>, \<lparr>Key = ''a'', Value = 2, Expiration = 6\<rparr>] \<and>
   length (filter (\<lambda>e. Key e = ''a'')
     (queue (fst (Set (fst (Set (run 0 (emptyCache 5) [(0::time, CallSet ''b'' 4)]) 0 ''a'' 1)) 1 ''a'' (2::nat))))) = 1"
proof -
  let ?c = "run (0::nat) (emptyCache 5) [(0::time, CallSet ''b'' 4)]"
  let ?c1 = "fst (Set ?c 0 ''a'' 1)"
  let ?c2 = "fst (Set ?c1 1 ''a'' 2)"
  have new: "NewInMemoryCache 5 1 = Return (emptyCache 5 :: nat cache)"
    by (simp add: NewInMemoryCache_def)
  have op: "\<not> isClosed ?c" by (simp add: eval_defs)
  have t: "(2::time) \<le> 1 + 5" by simp
  note th = update_overwrites [OF new refl op refl refl,
      where t_first = 0 and v_old = 1 and t_second = 1 and v_new = 2 and t_get = 2 and key = "''a''"]
  from th t have g: "Get ?c2 2 0 ''a'' = (?c2, Return (2, None))" by blast
  from th have n: "length (filter (\<lambda>e. Key e = ''a'') (queue ?c2)) = 1" by blast
  have q: "queue ?c2 =
     [\<lparr>Key = ''b'', Value = 4, Expiration = 5\<rparr>, \<lparr>Key = ''a'', Value = 2, Expiration = 6\<rparr>]"
    by (simp add: eval_defs)
  from new op t g q n show ?thesis by blast
qed

text \<open>
  Claim C7: Get never mutates the cache: after Get(k) the index, the queue and the
  closed flag are as they were before the call, whether the call hits, misses (also on
  an expired entry, which stays where it is) or panics.
\<close>

theorem Get_does_not_mutate:
  "fst (Get c now zero key) = c \<and>
   hashmap (fst (Get c now zero key)) = hashmap c \<and>
   queue (fst (Get c now zero key)) = queue c \<and>
   isClosed (fst (Get c now zero key)) = isClosed c"
  by (simp add: fst_Get)

text \<open>
  Claim C8: on a freshly constructed cache Get(k) returns a miss for every key k. The
  constructor returns when the cleaning interval is positive.
\<close>

theorem fresh_cache_misses:
  assumes "0 < ivl"
  shows "case NewInMemoryCache ttl ivl of
           Panic msg \<Rightarrow> False
         | Return c \<Rightarrow> Get c now zero key = (c, Return (zero, Some CacheMiss))"
  using assms by (simp add: NewInMemoryCache_def Get_def mustBeNotClosed_def)

text \<open>Claim C8 at a time-to-live of 5 and a cleaning interval of 1.\<close>

theorem fresh_cache_misses_witness:
  "(0::int) < 1 \<and> NewInMemoryCache 5 1 = Return (emptyCache 5 :: nat cache) \<and>
   Get (emptyCache 5) 3 (0::nat) ''key'' = (emptyCache 5, Return (0, Some CacheMiss))"
proof -
  have p: "(0::int) < 1" by simp
  have new: "NewInMemoryCache 5 1 = Return (emptyCache 5 :: nat cache)"
    by (simp add: NewInMemoryCache_def)
  from fresh_cache_misses [OF p, where ttl = 5 and now = 3 and zero = "0::nat" and key = "''key''"] new
  have "Get (emptyCache 5) 3 (0::nat) ''key'' = (emptyCache 5, Return (0, Some CacheMiss))"
    by simp
  with p new show ?thesis by blast
qed

text \<open>
  Claim C9: Set(k, v) followed by Get(k), with no advance of the clock past the
  time-to-live in between, returns (v, found). The cache is any cache that is not
  closed; the Set returns, and the Get at a clock reading of at most the reading of the
  Set plus the time-to-live returns the value with no error.
\<close>

theorem hit_after_Set:
  assumes "\<not> isClosed c" and "t_get \<le> t_set + timeToLive c"
  shows "snd (Set c t_set key v) = Return () \<and>
         Get (fst (Set c t_set key v)) t_get zero key = (fst (Set c t_set key v), Return (v, None))"
proof -
  have "snd (Get (fst (Set c t_set key v)) t_get zero key) = Return (v, None)"
    using Get_after_Set [OF assms(1), of t_set key v t_get zero] assms(2) by simp
  moreover have "fst (Get (fst (Set c t_set key v)) t_get zero key) = fst (Set c t_set key v)"
    by (rule fst_Get)
  moreover have "snd (Set c t_set key v) = Return ()" using assms(1) by (simp add: Set_open)
  ultimately show ?thesis by (simp add: prod_eq_iff)
qed

text \<open>
  Claim C9 at a fresh cache with a time-to-live of 5: a Set at time 0 and a Get at time
  5, and a Get at time 0.
\<close>

theorem hit_after_Set_witness:
  "\<not> isClosed (emptyCache 5 :: nat cache) \<and> (5::time) \<le> 0 + timeToLive (emptyCache 5 :: nat cache) \<and>
   snd (Set (emptyCache 5) 0 ''key'' (7::nat)) = Return () \<and>
   Get (fst (Set (emptyCache 5) 0 ''key'' (7::nat))) 5 0 ''key'' =
     (fst (Set (emptyCache 5) 0 ''key'' 7), Return (7, None)) \<and>
   Get (fst (Set (emptyCache 5) 0 ''key'' (7::nat))) 0 0 ''key'' =
     (fst (Set (emptyCache 5) 0 ''key'' 7), Return (7, None))"
proof -
  have op: "\<not> isClosed (emptyCache 5 :: nat cache)" by simp
  have t: "(5::time) \<le> 0 + timeToLive (emptyCache 5 :: nat cache)" by simp
  have t0: "(0::time) \<le> 0 + timeToLive (emptyCache 5 :: nat cache)" by simp
  note a = hit_after_Set [OF op t, where key = "''key''" and v = 7 and zero = 0]
  note b = hit_after_Set [OF op t0, where key = "''key''" and v = 7 and zero = 0]
  from op t a b show ?thesis by blast
qed

text \<open>
  Claim C10: on every miss Get returns the zero value of the element type together
  with the failure, never a stored value. Every result of Get that carries an error is
  the pair of the zero value and the miss; and on a cache that is not closed, a key that
  is absent or whose entry is expired gives that result.
\<close>

theorem miss_returns_zero:
  "(is_miss (snd (Get c now zero key)) \<longrightarrow>
      snd (Get c now zero key) = Return (zero, Some CacheMiss)) \<and>
   (\<not> isClosed c \<and> (hashmap c key = None \<or> (\<exists>e. hashmap c key = Some e \<and> IsExpired e now)) \<longrightarrow>
      snd (Get c now zero key) = Return (zero, Some CacheMiss))"
  by (auto simp: Get_def mustBeNotClosed_def is_miss_def split: option.splits)

text \<open>
  Claim C10 at a cache holding the value 7 under a key whose entry expired at 5: at
  time 6 Get returns the zero value 0 with a miss for that key and for an absent key.
\<close>

theorem miss_returns_zero_witness:
  "hashmap (fst (Set (emptyCache 5) 0 ''key'' (7::nat))) ''key'' =
     Some \<lparr>Key = ''key'', Value = 7, Expiration = 5\<rparr> \<and>
   IsExpired \<lparr>Key = ''key'', Value = 7::nat, Expiration = 5\<rparr> 6 \<and>
   \<not> isClosed (fst (Set (emptyCache 5) 0 ''key'' (7::nat))) \<and>
   snd (Get (fst (Set (emptyCache 5) 0 ''key'' (7::nat))) 6 0 ''key'') = Return (0, Some CacheMiss) \<and>
   snd (Get (fst (Set (emptyCache 5) 0 ''key'' (7::nat))) 6 0 ''other'') = Return (0, Some CacheMiss)"
proof -
  let ?c = "fst (Set (emptyCache 5) 0 ''key'' (7::nat))"
  have h: "hashmap ?c ''key'' = Some \<lparr>Key = ''key'', Value = 7, Expiration = 5\<rparr>"
    by (simp add: eval_defs)
  have h': "hashmap ?c ''other'' = None" by (simp add: eval_defs)
  have x: "IsExpired \<lparr>Key = ''key'', Value = 7::nat, Expiration = 5\<rparr> 6"
    by (simp add: IsExpired_def)
  have op: "\<not> isClosed ?c" by (simp add: eval_defs)
  from miss_returns_zero [where c = ?c and now = 6 and zero = 0 and key = "''key''"] h x op
  have a: "snd (Get ?c 6 0 ''key'') = Return (0, Some CacheMiss)" by blast
  from miss_returns_zero [where c = ?c and now = 6 and zero = 0 and key = "''other''"] h' op
  have b: "snd (Get ?c 6 0 ''other'') = Return (0, Some CacheMiss)" by blast
  from h x op a b show ?thesis by blast
qed

end
